theory Spec2Isabelle
  imports Complex_Main "HOL-Library.Sublist"
begin

section \<open>Character classes of the sentence tokenizer\<close>

text \<open>
  The program is Python; a \<open>str\<close> is a sequence of code points. The model takes a
  text to be a \<open>string\<close> whose characters are the code points 0 to 255, one
  \<open>char\<close> per code point, so \<open>length\<close> is Python's \<open>len\<close> on such texts.

  \<open>isspace\<close> is the class that both \<open>\s\<close> of a \<open>str\<close> pattern and
  \<open>str.strip()\<close> use: the code points 9 to 13, 28 to 32, 133 and 160 below 256.
\<close>

definition isspace :: "char \<Rightarrow> bool" where
  "isspace c =
     (let n = (of_char c :: nat)
      in (9 \<le> n \<and> n \<le> 13) \<or> (28 \<le> n \<and> n \<le> 32) \<or> n = 133 \<or> n = 160)"

text \<open>The class \<open>[.!?]\<close> of the look-behind.\<close>

definition is_terminal :: "char \<Rightarrow> bool" where
  "is_terminal c = (c = CHR ''.'' \<or> c = CHR ''!'' \<or> c = CHR ''?'')"

text \<open>The class \<open>[A-Z]\<close> of the look-ahead: the 26 ASCII capitals only.\<close>

definition is_upper_AZ :: "char \<Rightarrow> bool" where
  "is_upper_AZ c = (let n = (of_char c :: nat) in 65 \<le> n \<and> n \<le> 90)"

text \<open>\<open>str.strip()\<close>: drop the leading and the trailing run of whitespace.\<close>

definition strip :: "string \<Rightarrow> string" where
  "strip s = rev (dropWhile isspace (rev (dropWhile isspace s)))"

section \<open>The regular expression split\<close>

text \<open>
  \<open>re.split(r'(?<=[.!?])\s+(?=[A-Z])', text)\<close>. A match at a position needs the
  character before it to be in \<open>[.!?]\<close> (\<open>lookbehind\<close>), then \<open>\s+\<close>, which is
  greedy: it takes the whole run of whitespace and gives characters back one at a time
  until the rest starts with a capital (\<open>lookahead\<close>). \<open>match_at\<close> is the length of
  the match at the current position, the candidate lengths tried longest first.
\<close>

definition lookbehind :: "char option \<Rightarrow> bool" where
  "lookbehind prev = (case prev of None \<Rightarrow> False | Some p \<Rightarrow> is_terminal p)"

definition lookahead :: "string \<Rightarrow> bool" where
  "lookahead s = (case s of [] \<Rightarrow> False | c # _ \<Rightarrow> is_upper_AZ c)"

definition match_at :: "char option \<Rightarrow> string \<Rightarrow> nat option" where
  "match_at prev s =
     (if lookbehind prev
      then find (\<lambda>n. lookahead (drop n s)) (rev [1 ..< Suc (length (takeWhile isspace s))])
      else None)"

lemma match_at_SomeD:
  assumes "match_at prev s = Some n"
  shows "0 < n" and "n \<le> length (takeWhile isspace s)" and "lookbehind prev"
    and "lookahead (drop n s)"
proof -
  from assms have lb: "lookbehind prev"
    by (auto simp: match_at_def split: if_splits)
  with assms have
    f: "find (\<lambda>n. lookahead (drop n s)) (rev [1 ..< Suc (length (takeWhile isspace s))]) = Some n"
    by (simp add: match_at_def)
  then obtain i where "i < length (rev [1 ..< Suc (length (takeWhile isspace s))])"
    and "n = rev [1 ..< Suc (length (takeWhile isspace s))] ! i"
    unfolding find_Some_iff by blast
  then have "n \<in> set (rev [1 ..< Suc (length (takeWhile isspace s))])"
    using nth_mem by blast
  then have "n \<in> {1 ..< Suc (length (takeWhile isspace s))}"
    by (simp only: set_rev set_upt)
  then show "0 < n" and "n \<le> length (takeWhile isspace s)" by simp_all
  from f show "lookahead (drop n s)" by (auto simp: find_Some_iff)
  from lb show "lookbehind prev" .
qed

text \<open>
  The scan of \<open>re.split\<close>: \<open>prev\<close> is the character before the current position,
  \<open>cur\<close> the piece collected since the last match. At a match the piece is closed and
  the scan goes on after the matched whitespace; otherwise the character joins the piece.
  At the end of the text the last piece is closed, also when it is empty.
\<close>

function re_split_from :: "char option \<Rightarrow> string \<Rightarrow> string \<Rightarrow> string list" where
  "re_split_from prev cur [] = [cur]"
| "re_split_from prev cur (c # cs) =
     (case match_at prev (c # cs) of
        Some n \<Rightarrow> cur # re_split_from (Some (last (take n (c # cs)))) [] (drop n (c # cs))
      | None \<Rightarrow> re_split_from (Some c) (cur @ [c]) cs)"
  by pat_completeness auto
termination
proof (relation "measure (\<lambda>(prev, cur, s). length s)")
  show "wf (measure (\<lambda>(prev, cur, s). length s))" by simp
next
  fix prev :: "char option" and cur :: string and c cs n
  assume "match_at prev (c # cs) = Some n"
  then have "0 < n" by (rule match_at_SomeD(1))
  then show "((Some (last (take n (c # cs))), [], drop n (c # cs)), (prev, cur, c # cs))
      \<in> measure (\<lambda>(prev, cur, s). length s)"
    by simp
next
  fix prev :: "char option" and cur :: string and c cs
  show "((Some c, cur @ [c], cs), (prev, cur, c # cs)) \<in> measure (\<lambda>(prev, cur, s). length s)"
    by simp
qed

definition re_split :: "string \<Rightarrow> string list" where
  "re_split text = re_split_from None [] text"

section \<open>simple_sentence_tokenize\<close>

text \<open>
  \<open>final_sentences\<close> is the list that the comprehension builds: the pieces of the
  split, stripped, without those that are empty after stripping. The tokenizer appends
  the stripped text when this list is empty and the stripped text is not.
\<close>

definition final_sentences :: "string \<Rightarrow> string list" where
  "final_sentences text = map strip (filter (\<lambda>s. strip s \<noteq> []) (re_split text))"

definition simple_sentence_tokenize :: "string \<Rightarrow> string list" where
  "simple_sentence_tokenize text =
     (if final_sentences text = [] \<and> strip text \<noteq> []
      then final_sentences text @ [strip text]
      else final_sentences text)"

text \<open>\<open>re.search\<close> with the same pattern: is there a match anywhere in the text?\<close>

fun has_boundary :: "char option \<Rightarrow> string \<Rightarrow> bool" where
  "has_boundary prev [] = False"
| "has_boundary prev (c # cs) = (match_at prev (c # cs) \<noteq> None \<or> has_boundary (Some c) cs)"

section \<open>Python floats\<close>

text \<open>
  A Python float is an IEEE 754 double. A finite double is modelled by the real number it
  stands for; the two zeros are one value, since they compare equal and the program only
  compares, subtracts, adds and divides. An arithmetic operation computes the exact result
  and rounds it to the nearest double, and on a tie to the one with the even significand.

  \<open>binade x\<close> is the exponent of the power of two at or below \<open>\<bar>x\<bar>\<close>, and that of the
  subnormal numbers for a smaller \<open>x\<close>; \<open>ulp x\<close> is the distance between neighbouring
  doubles there, 52 binary places further down; \<open>fl x\<close> is the multiple of \<open>ulp x\<close>
  nearest to \<open>x\<close>. The rounding has no upper limit, as no operation of the program
  overflows: it subtracts a double from 1, adds numbers between 0 and 1, and divides such
  a sum by the length of the list.
\<close>

definition round_even :: "real \<Rightarrow> int" where
  "round_even y =
     (let f = \<lfloor>y\<rfloor>; d = y - of_int f
      in if d < 1 / 2 then f
         else if 1 / 2 < d then f + 1
         else if even f then f else f + 1)"

definition binade :: "real \<Rightarrow> int" where
  "binade x = max \<lfloor>log 2 \<bar>x\<bar>\<rfloor> (- 1022)"

definition ulp :: "real \<Rightarrow> real" where
  "ulp x = 2 powr (of_int (binade x) - 52)"

definition fl :: "real \<Rightarrow> real" where
  "fl x = (if x = 0 then 0 else of_int (round_even (x / ulp x)) * ulp x)"

text \<open>The conversion of an int to a float, as \<open>/\<close> does it for \<open>len(...)\<close>.\<close>

definition float_of_nat :: "nat \<Rightarrow> real" where
  "float_of_nat n = fl (real n)"

text \<open>
  \<open>sum\<close> of a list of floats: from 0, one rounded addition for each element, from
  the left. This is the summation of CPython up to version 3.11; later versions carry a
  correction term along.
\<close>

definition sum_floats :: "real list \<Rightarrow> real" where
  "sum_floats xs = foldl (\<lambda>acc x. fl (acc + x)) 0 xs"

section \<open>The classifier and the per-sentence scores\<close>

text \<open>
  The detector is the external text classifier: called once with the list of sentences,
  it returns one result per sentence, or the call fails. A result is the dictionary
  with the keys \<open>"label"\<close> and \<open>"score"\<close>; the score is a finite float.
\<close>

datatype error = ClassifierUnavailable | ClassifierFailure | ZeroDivisionError

record cls_result =
  result_label :: string
  result_score :: real

type_synonym detector = "string list \<Rightarrow> error + cls_result list"

text \<open>
  \<open>str.lower()\<close> on code points below 256: the ASCII capitals and the Latin-1
  capitals 192 to 222 (without the multiplication sign 215) move up by 32.
\<close>

definition lower_char :: "char \<Rightarrow> char" where
  "lower_char c =
     (let n = (of_char c :: nat)
      in if (65 \<le> n \<and> n \<le> 90) \<or> (192 \<le> n \<and> n \<le> 222 \<and> n \<noteq> 215)
         then char_of (n + 32) else c)"

definition lower :: "string \<Rightarrow> string" where
  "lower s = map lower_char s"

text \<open>
  The body of the first loop: \<open>ai_prob\<close>, where \<open>1.0 - score\<close> is a float
  subtraction, then the clamp that is appended. On finite floats Python's \<open>min\<close> and
  \<open>max\<close> are those of the real numbers.
\<close>

definition ai_prob :: "cls_result \<Rightarrow> real" where
  "ai_prob result =
     (if lower (result_label result) = ''fake'' then result_score result
      else fl (1 - result_score result))"

definition clamped :: "cls_result \<Rightarrow> real" where
  "clamped result = max 0 (min 1 (ai_prob result))"

definition sentence_scores :: "cls_result list \<Rightarrow> real list" where
  "sentence_scores results = foldl (\<lambda>acc result. acc @ [clamped result]) [] results"

section \<open>Highlighting\<close>

text \<open>
  \<open>html.escape(s)\<close> of the standard library, with its default \<open>quote=True\<close>: five
  replacements one after the other, the ampersand first.
\<close>

definition replace_char :: "char \<Rightarrow> string \<Rightarrow> string \<Rightarrow> string" where
  "replace_char c r s = concat (map (\<lambda>x. if x = c then r else [x]) s)"

definition html_escape :: "string \<Rightarrow> string" where
  "html_escape s =
     replace_char (CHR 0x27) ''&#x27;''
       (replace_char (CHR 0x22) ''&quot;''
         (replace_char CHR ''>'' ''&gt;''
           (replace_char CHR ''<'' ''&lt;''
             (replace_char CHR ''&'' ''&amp;'' s))))"

text \<open>
  What the five replacements do to one character: the entity of a character with a
  meaning in markup, the character itself otherwise.
\<close>

definition escape_char :: "char \<Rightarrow> string" where
  "escape_char c =
     (if c = CHR ''&'' then ''&amp;''
      else if c = CHR ''<'' then ''&lt;''
      else if c = CHR ''>'' then ''&gt;''
      else if c = CHR 0x22 then ''&quot;''
      else if c = CHR 0x27 then ''&#x27;''
      else [c])"

text \<open>The three colours: strong red, orange, and no highlight.\<close>

definition strong_color :: string where
  "strong_color = ''rgba(255, 77, 77, 0.6)''"

definition moderate_color :: string where
  "moderate_color = ''rgba(255, 165, 0, 0.5)''"

definition none_color :: string where
  "none_color = ''transparent''"

definition highlight_color :: "real \<Rightarrow> string" where
  "highlight_color score =
     (if score > 0.75 then strong_color
      else if score > 0.5 then moderate_color
      else none_color)"

text \<open>The f-string of the second loop: the span around one escaped sentence.\<close>

definition span :: "string \<Rightarrow> string \<Rightarrow> string" where
  "span color safe_sent =
     ''<span style='' @ [CHR 0x22] @ ''background-color: '' @ color
       @ ''; padding: 2px 1px; line-height: 1.7;'' @ [CHR 0x22] @ ''>''
       @ safe_sent @ ''</span> ''"

definition highlight :: "string list \<Rightarrow> real list \<Rightarrow> string" where
  "highlight sentences scores =
     foldl (\<lambda>highlighted_text (sent, score).
              highlighted_text @ span (highlight_color score) (html_escape sent))
       [] (zip sentences scores)"

section \<open>analyze_and_highlight\<close>

text \<open>
  Python's \<open>/\<close> on floats raises on a zero divisor, where the division of HOL returns
  0; the model keeps the raise as a value. The quotient is rounded. The overall
  probability divides the float sum of the scores by their number, converted to a float.
\<close>

definition truediv :: "real \<Rightarrow> real \<Rightarrow> error + real" where
  "truediv a b = (if b = 0 then Inl ZeroDivisionError else Inr (fl (a / b)))"

definition overall_prob :: "real list \<Rightarrow> error + real" where
  "overall_prob scores =
     (if scores \<noteq> []
      then truediv (sum_floats scores) (float_of_nat (length scores))
      else Inr 0)"

definition analyze_and_highlight :: "detector \<Rightarrow> string \<Rightarrow> error + (string \<times> real)" where
  "analyze_and_highlight detector text =
     (let sentences = simple_sentence_tokenize text
      in if sentences = [] then Inr ([], 0)
         else (case detector sentences of
                 Inl e \<Rightarrow> Inl e
               | Inr results \<Rightarrow>
                   let scores = sentence_scores results;
                       highlighted_text = highlight sentences scores
                   in (case overall_prob scores of
                         Inl e \<Rightarrow> Inl e
                       | Inr p \<Rightarrow> Inr (highlighted_text, p))))"

section \<open>The page\<close>

text \<open>
  The three verdict messages and the three gradients of the bar, chosen by the same
  two comparisons.
\<close>

datatype verdict = LikelyAI | PossiblyAI | LikelyHuman

datatype bar = Reddish | Orangey | Bluish

definition verdict_of :: "real \<Rightarrow> verdict" where
  "verdict_of overall_ai_prob =
     (if overall_ai_prob \<ge> 0.7 then LikelyAI
      else if overall_ai_prob > 0.4 then PossiblyAI
      else LikelyHuman)"

definition bar_color :: "real \<Rightarrow> bar" where
  "bar_color overall_ai_prob =
     (if overall_ai_prob \<ge> 0.7 then Reddish
      else if overall_ai_prob > 0.4 then Orangey
      else Bluish)"

text \<open>
  What the analysis section of the page shows after one run of the script: nothing when
  the button was not pressed, the prompt to enter text, the notice with the actual and
  the recommended length, the failure of the classifier, or the result card with the
  verdict, the bar, the highlighted text and the overall probability (the percentage on
  the bar is this probability rounded for display).
\<close>

datatype page =
    NotRequested
  | EnterTextPrompt
  | LengthNotice nat nat
  | RequestFailed error
  | ResultCard verdict bar string real

definition shows_result :: "page \<Rightarrow> bool" where
  "shows_result p = (case p of ResultCard v b h x \<Rightarrow> True | _ \<Rightarrow> False)"

text \<open>
  \<open>load_detector\<close> is the cached loader: it gives the detector or fails. It is
  called in the last branch only.
\<close>

definition analysis_section :: "(error + detector) \<Rightarrow> bool \<Rightarrow> string \<Rightarrow> nat \<Rightarrow> page" where
  "analysis_section load_detector analyze text min_len =
     (if analyze then
        if strip text = [] then EnterTextPrompt
        else if length text < min_len then LengthNotice (length text) min_len
        else (case load_detector of
                Inl e \<Rightarrow> RequestFailed e
              | Inr detector \<Rightarrow>
                  (case analyze_and_highlight detector text of
                     Inl e \<Rightarrow> RequestFailed e
                   | Inr (highlighted_html, overall_ai_prob) \<Rightarrow>
                       ResultCard (verdict_of overall_ai_prob) (bar_color overall_ai_prob)
                         highlighted_html overall_ai_prob))
      else NotRequested)"

text \<open>
  Two detectors for examples. The first labels every sentence \<open>Fake\<close> with the float
  written 0.9; the second does the same for the one-sentence batch \<open>Hi there.\<close> and
  fails on every other batch.
\<close>

definition fake_detector :: detector where
  "fake_detector sentences =
     Inr (map (\<lambda>s. \<lparr>result_label = ''Fake'',
                       result_score = 8106479329266893 / 9007199254740992\<rparr>) sentences)"

definition narrow_detector :: detector where
  "narrow_detector sentences =
     (if sentences = [''Hi there.''] then fake_detector sentences else Inl ClassifierFailure)"

section \<open>Properties of the tokenizer\<close>

lemma dropWhile_nonspace:
  "filter (\<lambda>c. \<not> isspace c) (dropWhile isspace xs) = filter (\<lambda>c. \<not> isspace c) xs"
  by (induction xs) simp_all

lemma strip_nonspace: "filter (\<lambda>c. \<not> isspace c) (strip s) = filter (\<lambda>c. \<not> isspace c) s"
proof -
  have "filter (\<lambda>c. \<not> isspace c) (strip s)
      = rev (filter (\<lambda>c. \<not> isspace c) (dropWhile isspace (rev (dropWhile isspace s))))"
    unfolding strip_def by (simp only: rev_filter)
  also have "\<dots> = rev (filter (\<lambda>c. \<not> isspace c) (rev (dropWhile isspace s)))"
    by (simp only: dropWhile_nonspace)
  also have "\<dots> = filter (\<lambda>c. \<not> isspace c) (dropWhile isspace s)"
    by (simp only: rev_filter rev_rev_ident)
  also have "\<dots> = filter (\<lambda>c. \<not> isspace c) s"
    by (simp only: dropWhile_nonspace)
  finally show ?thesis .
qed

lemma strip_empty_iff: "strip s = [] \<longleftrightarrow> (\<forall>c \<in> set s. isspace c)"
proof
  assume "strip s = []"
  then have "filter (\<lambda>c. \<not> isspace c) s = []"
    using strip_nonspace [of s] by simp
  then show "\<forall>c \<in> set s. isspace c"
    by (simp add: filter_empty_conv)
next
  assume "\<forall>c \<in> set s. isspace c"
  then have "dropWhile isspace s = []"
    by (induction s) simp_all
  then show "strip s = []" by (simp only: strip_def rev.simps dropWhile.simps)
qed

lemma dropWhile_hd_id: "xs \<noteq> [] \<Longrightarrow> \<not> P (hd xs) \<Longrightarrow> dropWhile P xs = xs"
  by (cases xs) simp_all

lemma strip_trimmed:
  assumes "strip s \<noteq> []"
  shows "\<not> isspace (hd (strip s))" and "\<not> isspace (last (strip s))"
proof -
  let ?d = "dropWhile isspace s"
  let ?e = "dropWhile isspace (rev ?d)"
  from assms have e: "?e \<noteq> []" by (simp add: strip_def)
  then have d: "?d \<noteq> []" by (cases "?d") simp_all
  have hd_e: "\<not> isspace (hd ?e)" using e by (rule hd_dropWhile)
  have "last (strip s) = hd ?e"
    unfolding strip_def using e by (simp only: last_rev)
  with hd_e show "\<not> isspace (last (strip s))" by simp
  have hd_d: "\<not> isspace (hd ?d)" using d by (rule hd_dropWhile)
  then have "\<not> isspace (last (rev ?d))" using d by (simp add: last_rev)
  have "hd (strip s) = last ?e"
    unfolding strip_def using e by (simp only: hd_rev)
  also have "last ?e = last (rev ?d)"
  proof (rule dropWhile_last)
    show "hd ?d \<in> set (rev ?d)" using d by simp
    show "\<not> isspace (hd ?d)" by (rule hd_d)
  qed
  also have "\<dots> = hd ?d" using d by (simp add: last_rev)
  finally show "\<not> isspace (hd (strip s))" using hd_d by simp
qed

lemma take_whitespace:
  assumes "n \<le> length (takeWhile isspace s)"
  shows "filter (\<lambda>c. \<not> isspace c) (take n s) = []"
proof -
  have "take n (A @ B) = take n A" if "n \<le> length A" for A B :: string
    using that by simp
  from this [OF assms, of "dropWhile isspace s"]
  have "take n s = take n (takeWhile isspace s)"
    by (simp only: takeWhile_dropWhile_id)
  moreover have "\<forall>x \<in> set (take n (takeWhile isspace s)). isspace x"
    using set_takeWhileD in_set_takeD by fast
  ultimately show ?thesis
    by (simp add: filter_empty_conv)
qed

lemma drop_whitespace:
  assumes "n \<le> length (takeWhile isspace s)"
  shows "filter (\<lambda>c. \<not> isspace c) (drop n s) = filter (\<lambda>c. \<not> isspace c) s"
proof -
  have "filter (\<lambda>c. \<not> isspace c) (take n s @ drop n s)
      = filter (\<lambda>c. \<not> isspace c) (take n s) @ filter (\<lambda>c. \<not> isspace c) (drop n s)"
    by (rule filter_append)
  then show ?thesis
    using take_whitespace [OF assms] by simp
qed

lemma re_split_from_nonspace:
  "filter (\<lambda>c. \<not> isspace c) (concat (re_split_from prev cur s))
     = filter (\<lambda>c. \<not> isspace c) (cur @ s)"
proof (induction prev cur s rule: re_split_from.induct)
  case (1 prev cur)
  show ?case by simp
next
  case (2 prev cur c cs)
  show ?case
  proof (cases "match_at prev (c # cs)")
    case None
    with 2(1) [OF None] show ?thesis by simp
  next
    case (Some n)
    have "n \<le> length (takeWhile isspace (c # cs))"
      using Some by (rule match_at_SomeD(2))
    then have "filter (\<lambda>c. \<not> isspace c) (drop n (c # cs)) = filter (\<lambda>c. \<not> isspace c) (c # cs)"
      by (rule drop_whitespace)
    with Some 2(2) [OF Some] show ?thesis by simp
  qed
qed

lemma pieces_nonspace:
  "filter (\<lambda>c. \<not> isspace c) (concat (map strip (filter (\<lambda>s. strip s \<noteq> []) xs)))
     = filter (\<lambda>c. \<not> isspace c) (concat xs)"
proof (induction xs)
  case Nil
  show ?case by simp
next
  case (Cons x xs)
  show ?case
  proof (cases "strip x = []")
    case True
    then have "filter (\<lambda>c. \<not> isspace c) x = []"
      using strip_nonspace [of x] by simp
    with True Cons show ?thesis by simp
  next
    case False
    with Cons show ?thesis by (simp add: strip_nonspace)
  qed
qed

lemma final_sentences_nonspace:
  "filter (\<lambda>c. \<not> isspace c) (concat (final_sentences text)) = filter (\<lambda>c. \<not> isspace c) text"
  unfolding final_sentences_def re_split_def
  by (simp only: pieces_nonspace re_split_from_nonspace append_Nil)

lemma final_sentences_Nil: "final_sentences text = [] \<Longrightarrow> strip text = []"
proof -
  assume "final_sentences text = []"
  then have "filter (\<lambda>c. \<not> isspace c) text = []"
    using final_sentences_nonspace [of "text"] by simp
  then show "strip text = []"
    by (simp add: strip_empty_iff filter_empty_conv)
qed

lemma tokenize_split: "simple_sentence_tokenize text = final_sentences text"
proof (cases "final_sentences text = []")
  case True
  then have "strip text = []" by (rule final_sentences_Nil)
  with True show ?thesis
    by (simp add: simple_sentence_tokenize_def)
next
  case False
  then show ?thesis
    by (simp add: simple_sentence_tokenize_def)
qed

lemma no_boundary_split:
  "\<not> has_boundary prev s \<Longrightarrow> re_split_from prev cur s = [cur @ s]"
  by (induction s arbitrary: prev cur) simp_all

lemma final_sentences_nonempty: "s \<in> set (final_sentences text) \<Longrightarrow> s \<noteq> []"
  by (auto simp: final_sentences_def)

lemma final_sentences_trimmed:
  "s \<in> set (final_sentences text) \<Longrightarrow> \<not> isspace (hd s) \<and> \<not> isspace (last s)"
  by (auto simp: final_sentences_def strip_trimmed)

lemma final_sentences_blank:
  assumes "strip text = []"
  shows "final_sentences text = []"
proof (cases "final_sentences text")
  case Nil
  then show ?thesis .
next
  case (Cons s rest)
  then have mem: "s \<in> set (final_sentences text)" by simp
  then have "s \<noteq> []" and "\<not> isspace (hd s)"
    using final_sentences_nonempty final_sentences_trimmed by blast+
  then have "hd s \<in> set (filter (\<lambda>c. \<not> isspace c) s)" by simp
  with mem have "hd s \<in> set (filter (\<lambda>c. \<not> isspace c) (concat (final_sentences text)))"
    by auto
  then have "hd s \<in> set (filter (\<lambda>c. \<not> isspace c) text)"
    by (simp only: final_sentences_nonspace)
  moreover from assms have "\<forall>c \<in> set text. isspace c"
    by (simp only: strip_empty_iff)
  ultimately show ?thesis by simp
qed

lemma tokenize_blank:
  assumes "\<forall>c \<in> set text. isspace c"
  shows "simple_sentence_tokenize text = []"
proof -
  from assms have "strip text = []" by (simp only: strip_empty_iff)
  then have "final_sentences text = []" by (rule final_sentences_blank)
  then show ?thesis by (simp only: tokenize_split)
qed

lemma tokenize_no_boundary:
  assumes "strip text \<noteq> []" and "\<not> has_boundary None text"
  shows "simple_sentence_tokenize text = [strip text]"
proof -
  from assms(2) have "re_split_from None [] text = [[] @ text]" by (rule no_boundary_split)
  then have "re_split text = [text]"
    unfolding re_split_def by (simp only: append_Nil)
  then have "final_sentences text = [strip text]"
    using assms(1) by (simp add: final_sentences_def)
  then show ?thesis by (simp only: tokenize_split)
qed

subsection \<open>Edge cases of the segmentation\<close>

text \<open>
  Claim C6. A text that is empty or consists of whitespace only gives no sentence. A
  text with a character that is not whitespace, in which the pattern matches nowhere (no
  \<open>.\<close>, \<open>!\<close> or \<open>?\<close> followed by whitespace and then a capital), gives exactly one
  sentence, the stripped text. \<open>This is one. This is two.\<close> gives its two sentences in
  order, each with its own full stop, and \<open>Hello world\<close> gives itself.
\<close>

theorem tokenize_edge_cases:
  "((\<forall>c \<in> set text. isspace c) \<longrightarrow> simple_sentence_tokenize text = [])
   \<and> (strip text \<noteq> [] \<and> \<not> has_boundary None text
        \<longrightarrow> simple_sentence_tokenize text = [strip text])
   \<and> simple_sentence_tokenize [] = []
   \<and> simple_sentence_tokenize ''Hello world'' = [''Hello world'']
   \<and> simple_sentence_tokenize ''This is one. This is two.''
       = [''This is one.'', ''This is two.'']"
proof (intro conjI impI)
  assume "\<forall>c \<in> set text. isspace c"
  then show "simple_sentence_tokenize text = []" by (rule tokenize_blank)
next
  assume "strip text \<noteq> [] \<and> \<not> has_boundary None text"
  then show "simple_sentence_tokenize text = [strip text]"
    using tokenize_no_boundary by blast
next
  show "simple_sentence_tokenize [] = []" by code_simp
next
  show "simple_sentence_tokenize ''Hello world'' = [''Hello world'']" by code_simp
next
  show "simple_sentence_tokenize ''This is one. This is two.''
       = [''This is one.'', ''This is two.'']" by code_simp
qed

theorem tokenize_edge_cases_witness:
  "isspace CHR '' '' \<and> simple_sentence_tokenize '' '' = []
   \<and> strip '' no Capital. after  '' \<noteq> [] \<and> \<not> has_boundary None '' no Capital. after  ''
   \<and> simple_sentence_tokenize '' no Capital. after  '' = [''no Capital. after'']"
proof -
  have i: "isspace CHR '' ''" by (simp add: isspace_def)
  then have b: "\<forall>c \<in> set '' ''. isspace c" by simp
  have s: "strip '' no Capital. after  '' = ''no Capital. after''" by code_simp
  have n: "strip '' no Capital. after  '' \<noteq> []" unfolding s by simp
  have h: "\<not> has_boundary None '' no Capital. after  ''" by code_simp
  from b tokenize_edge_cases [of "'' ''"]
  have 1: "simple_sentence_tokenize '' '' = []" by blast
  from n h tokenize_edge_cases [of "'' no Capital. after  ''"]
  have "simple_sentence_tokenize '' no Capital. after  '' = [strip '' no Capital. after  '']"
    by blast
  then have 2: "simple_sentence_tokenize '' no Capital. after  '' = [''no Capital. after'']"
    by (simp only: s)
  from i 1 n h 2 show ?thesis by blast
qed

subsection \<open>Nothing but whitespace is dropped\<close>

text \<open>
  Claim C7. For every text, the characters of the returned sentences that are not
  whitespace are, in order, exactly the characters of the text that are not whitespace;
  and every returned sentence is non-empty, and begins and ends with a character that
  is not whitespace.
\<close>

theorem tokenize_keeps_nonspace:
  "filter (\<lambda>c. \<not> isspace c) (concat (simple_sentence_tokenize text))
     = filter (\<lambda>c. \<not> isspace c) text
   \<and> (\<forall>s \<in> set (simple_sentence_tokenize text).
         s \<noteq> [] \<and> \<not> isspace (hd s) \<and> \<not> isspace (last s))"
proof (intro conjI ballI)
  show "filter (\<lambda>c. \<not> isspace c) (concat (simple_sentence_tokenize text))
     = filter (\<lambda>c. \<not> isspace c) text"
    by (simp only: tokenize_split final_sentences_nonspace)
next
  fix s assume "s \<in> set (simple_sentence_tokenize text)"
  then have m: "s \<in> set (final_sentences text)" by (simp only: tokenize_split)
  then show "s \<noteq> []" by (rule final_sentences_nonempty)
  from m show "\<not> isspace (hd s)" "\<not> isspace (last s)"
    using final_sentences_trimmed by blast+
qed

theorem tokenize_keeps_nonspace_witness:
  "''B?'' \<in> set (simple_sentence_tokenize ''A.  B?'') \<and> ''B?'' \<noteq> []
   \<and> filter (\<lambda>c. \<not> isspace c) (concat (simple_sentence_tokenize ''A.  B?'')) = ''A.B?''"
proof -
  have m: "simple_sentence_tokenize ''A.  B?'' = [''A.'', ''B?'']" by code_simp
  have f: "filter (\<lambda>c. \<not> isspace c) ''A.  B?'' = ''A.B?''" by code_simp
  have i: "''B?'' \<in> set [''A.'', ''B?'']" by simp
  from tokenize_keeps_nonspace [of "''A.  B?''"]
  have "filter (\<lambda>c. \<not> isspace c) (concat (simple_sentence_tokenize ''A.  B?''))
     = filter (\<lambda>c. \<not> isspace c) ''A.  B?''"
    and "\<forall>s \<in> set (simple_sentence_tokenize ''A.  B?''). s \<noteq> []"
    by blast+
  with m f i show ?thesis by (simp only: simp_thms)
qed

subsection \<open>The fallback branch\<close>

text \<open>
  Claim C10. The condition of the fallback never holds: the list built from the split is
  empty only when the stripped text is empty. So the tokenizer returns that list as it
  is, and its result is non-empty exactly when the stripped text is non-empty.
\<close>

theorem fallback_unreachable:
  "\<not> (final_sentences text = [] \<and> strip text \<noteq> [])
   \<and> simple_sentence_tokenize text = final_sentences text
   \<and> (simple_sentence_tokenize text \<noteq> [] \<longleftrightarrow> strip text \<noteq> [])"
proof (intro conjI)
  show "\<not> (final_sentences text = [] \<and> strip text \<noteq> [])"
    using final_sentences_Nil [of "text"] by blast
  show "simple_sentence_tokenize text = final_sentences text"
    by (rule tokenize_split)
  show "simple_sentence_tokenize text \<noteq> [] \<longleftrightarrow> strip text \<noteq> []"
    unfolding tokenize_split
    using final_sentences_Nil [of "text"] final_sentences_blank [of "text"] by blast
qed

theorem fallback_unreachable_witness:
  "strip ''Hello world'' \<noteq> [] \<and> simple_sentence_tokenize ''Hello world'' \<noteq> []
   \<and> final_sentences ''Hello world'' = simple_sentence_tokenize ''Hello world''"
proof -
  have "strip ''Hello world'' \<noteq> []" by code_simp
  with fallback_unreachable [of "''Hello world''"] show ?thesis by simp
qed

section \<open>Properties of the rounding\<close>

lemma round_even_of_int: "round_even (of_int k) = k"
  by (simp add: round_even_def)

lemma round_even_bounds: "\<lfloor>y\<rfloor> \<le> round_even y" "round_even y \<le> \<lfloor>y\<rfloor> + 1"
  by (simp_all add: round_even_def Let_def)

lemma round_even_mono:
  assumes "y \<le> z"
  shows "round_even y \<le> round_even z"
proof (cases "\<lfloor>y\<rfloor> = \<lfloor>z\<rfloor>")
  case True
  with assms have "y - of_int \<lfloor>y\<rfloor> \<le> z - of_int \<lfloor>z\<rfloor>" by simp
  with True show ?thesis
    by (auto simp: round_even_def Let_def)
next
  case False
  with assms have "\<lfloor>y\<rfloor> < \<lfloor>z\<rfloor>"
    using floor_mono [of y z] by linarith
  then have "\<lfloor>y\<rfloor> + 1 \<le> \<lfloor>z\<rfloor>" by simp
  with round_even_bounds(2) [of y] round_even_bounds(1) [of z] show ?thesis
    by linarith
qed

lemma round_even_err: "\<bar>of_int (round_even y) - y\<bar> \<le> 1 / 2"
proof -
  have "of_int \<lfloor>y\<rfloor> \<le> y" "y < of_int \<lfloor>y\<rfloor> + 1" by linarith+
  then show ?thesis
    by (auto simp: round_even_def Let_def abs_le_iff)
qed

lemma ulp_pos: "0 < ulp x"
  by (simp add: ulp_def)

lemma binade_ge: "- 1022 \<le> binade x"
  by (simp add: binade_def)

lemma binade_upper:
  assumes "0 < x"
  shows "x < 2 powr (of_int (binade x) + 1)"
proof -
  have "log 2 x < of_int \<lfloor>log 2 x\<rfloor> + 1" by linarith
  also have "\<dots> \<le> of_int (binade x) + 1"
    using assms by (simp add: binade_def)
  finally have "log 2 x < of_int (binade x) + 1" .
  with assms show ?thesis
    by (simp add: log_less_iff)
qed

lemma binade_lower:
  assumes "2 powr (- 1022) \<le> x"
  shows "2 powr of_int (binade x) \<le> x"
proof -
  have pos: "0 < x"
    using assms by (rule less_le_trans [rotated]) simp
  from assms pos have "- 1022 \<le> log 2 x"
    by (simp add: le_log_iff)
  then have "(- 1022 :: int) \<le> \<lfloor>log 2 x\<rfloor>"
    by (simp add: le_floor_iff)
  then have "binade x = \<lfloor>log 2 x\<rfloor>"
    using pos by (simp add: binade_def)
  then have "of_int (binade x) \<le> log 2 x" by simp
  with pos show ?thesis by (simp add: le_log_iff)
qed

lemma binade_mono:
  assumes "0 < x" and "x \<le> y"
  shows "binade x \<le> binade y"
proof -
  from assms have "log 2 x \<le> log 2 y" by (simp add: log_mono)
  then have "\<lfloor>log 2 x\<rfloor> \<le> \<lfloor>log 2 y\<rfloor>" by (rule floor_mono)
  with assms show ?thesis by (simp add: binade_def)
qed

lemma binade_eqI:
  assumes "0 < x" and "- 1022 \<le> k" and "2 powr of_int k \<le> x" and "x < 2 powr (of_int k + 1)"
  shows "binade x = k"
proof -
  from assms(1,3) have "of_int k \<le> log 2 x" by (simp add: le_log_iff)
  moreover from assms(1,4) have "log 2 x < of_int k + 1" by (simp add: log_less_iff)
  ultimately have "\<lfloor>log 2 x\<rfloor> = k" by (rule floor_unique)
  with assms(1,2) show ?thesis by (simp add: binade_def)
qed

lemma fl_nonneg:
  assumes "0 \<le> x"
  shows "0 \<le> fl x"
proof -
  have "0 \<le> x / ulp x" using assms ulp_pos [of x] by simp
  then have "0 \<le> \<lfloor>x / ulp x\<rfloor>" by simp
  with round_even_bounds(1) [of "x / ulp x"] have "0 \<le> round_even (x / ulp x)" by linarith
  then show ?thesis using ulp_pos [of x] by (simp add: fl_def)
qed

lemma fl_exact:
  assumes "x = of_int m * ulp x"
  shows "fl x = x"
proof -
  have "x / ulp x = of_int m"
    using assms ulp_pos [of x] by (metis less_irrefl nonzero_mult_div_cancel_right)
  then have "round_even (x / ulp x) = m" by (simp add: round_even_of_int)
  with assms show ?thesis by (simp add: fl_def)
qed

lemma fl_upper:
  assumes "0 < x"
  shows "fl x \<le> 2 powr (of_int (binade x) + 1)"
proof -
  have "x / ulp x < 2 powr (of_int (binade x) + 1) / ulp x"
    using binade_upper [OF assms] ulp_pos [of x] by (simp add: divide_strict_right_mono)
  also have "2 powr (of_int (binade x) + 1) / ulp x = 2 powr 53"
    by (simp add: ulp_def powr_diff [symmetric])
  also have "\<dots> = of_int (2 ^ 53)" by simp
  finally have "x / ulp x \<le> of_int (2 ^ 53)" by simp
  then have "round_even (x / ulp x) \<le> round_even (of_int (2 ^ 53))" by (rule round_even_mono)
  then have "round_even (x / ulp x) \<le> 2 ^ 53" by (simp only: round_even_of_int)
  then have "of_int (round_even (x / ulp x)) * ulp x \<le> 2 powr 53 * ulp x"
    using ulp_pos [of x] by simp
  also have "2 powr 53 * ulp x = 2 powr (of_int (binade x) + 1)"
    unfolding ulp_def powr_add [symmetric] by (simp add: algebra_simps)
  finally show ?thesis using assms by (simp add: fl_def)
qed

lemma fl_lower:
  assumes "2 powr (- 1022) \<le> x"
  shows "2 powr of_int (binade x) \<le> fl x"
proof -
  have pos: "0 < x"
    using assms by (rule less_le_trans [rotated]) simp
  have "2 powr of_int (binade x) / ulp x \<le> x / ulp x"
    using binade_lower [OF assms] ulp_pos [of x] by (simp add: divide_right_mono)
  moreover have "2 powr of_int (binade x) / ulp x = 2 powr 52"
    by (simp add: ulp_def powr_diff [symmetric])
  moreover have "(2::real) powr 52 = of_int (2 ^ 52)" by simp
  ultimately have "of_int (2 ^ 52) \<le> x / ulp x" by simp
  then have "round_even (of_int (2 ^ 52)) \<le> round_even (x / ulp x)" by (rule round_even_mono)
  then have "2 ^ 52 \<le> round_even (x / ulp x)" by (simp only: round_even_of_int)
  then have "2 powr 52 * ulp x \<le> of_int (round_even (x / ulp x)) * ulp x"
    using ulp_pos [of x] by simp
  moreover have "2 powr 52 * ulp x = 2 powr of_int (binade x)"
    unfolding ulp_def powr_add [symmetric] by (simp add: algebra_simps)
  ultimately show ?thesis using pos by (simp add: fl_def)
qed

lemma fl_mono:
  assumes "0 \<le> x" and "x \<le> y"
  shows "fl x \<le> fl y"
proof (cases "x = 0")
  case True
  then have "fl x = 0" by (simp add: fl_def)
  moreover from assms have "0 \<le> fl y" by (intro fl_nonneg) simp
  ultimately show ?thesis by simp
next
  case False
  with assms have x: "0 < x" and y: "0 < y" by simp_all
  from x assms(2) have b: "binade x \<le> binade y" by (rule binade_mono)
  show ?thesis
  proof (cases "binade x = binade y")
    case True
    then have u: "ulp x = ulp y" by (simp add: ulp_def)
    have "x / ulp y \<le> y / ulp y"
      using assms(2) ulp_pos [of y] by (simp add: divide_right_mono)
    then have "round_even (x / ulp y) \<le> round_even (y / ulp y)" by (rule round_even_mono)
    then have "of_int (round_even (x / ulp y)) * ulp y \<le> of_int (round_even (y / ulp y)) * ulp y"
      using ulp_pos [of y] by simp
    with x y u show ?thesis by (simp add: fl_def)
  next
    case False
    with b have lt: "binade x + 1 \<le> binade y" by simp
    with binade_ge [of x] have "- 1022 < binade y" by linarith
    then have "(- 1022 :: int) \<le> \<lfloor>log 2 y\<rfloor>"
      using y by (simp add: binade_def max_def split: if_splits)
    then have "- 1022 \<le> log 2 y" by (simp add: le_floor_iff)
    then have n: "2 powr (- 1022) \<le> y" using y by (simp add: le_log_iff)
    have "fl x \<le> 2 powr (of_int (binade x) + 1)" using x by (rule fl_upper)
    also have "\<dots> \<le> 2 powr of_int (binade y)"
    proof (rule powr_mono)
      show "of_int (binade x) + 1 \<le> (of_int (binade y) :: real)" using lt by linarith
      show "(1::real) \<le> 2" by simp
    qed
    also have "\<dots> \<le> fl y" using n by (rule fl_lower)
    finally show ?thesis .
  qed
qed

lemma fl_0: "fl 0 = 0"
  by (simp add: fl_def)

lemma two_powr_nat: "2 powr (real n) = (2::real) ^ n"
  by (simp add: powr_realpow)

lemma two_powr_neg_nat: "2 powr (- real n) = 1 / (2::real) ^ n"
  by (simp add: powr_minus_divide powr_realpow)

lemma fl_binade_pos:
  assumes "2 ^ n \<le> x" and "x < 2 * 2 ^ n" and "n \<le> 52"
  shows "fl x = of_int (round_even (x * 2 ^ (52 - n))) / 2 ^ (52 - n)"
proof -
  have pos: "0 < x" using assms(1) by (rule less_le_trans [rotated]) simp
  have "binade x = int n"
  proof (rule binade_eqI [OF pos])
    show "- 1022 \<le> int n" by simp
    show "2 powr of_int (int n) \<le> x" using assms(1) by (simp add: two_powr_nat)
    have "2 powr (real n + 1) = 2 * 2 ^ n" by (simp add: powr_add two_powr_nat)
    then show "x < 2 powr (of_int (int n) + 1)" using assms(2) by simp
  qed
  then have "ulp x = 2 powr (- real (52 - n))"
    using assms(3) by (simp add: ulp_def of_nat_diff)
  then have "ulp x = 1 / 2 ^ (52 - n)" by (simp only: two_powr_neg_nat)
  with pos show ?thesis by (simp add: fl_def)
qed

lemma fl_binade_neg:
  assumes "1 / 2 ^ n \<le> x" and "x < 2 / 2 ^ n" and "n \<le> 1022"
  shows "fl x = of_int (round_even (x * 2 ^ (52 + n))) / 2 ^ (52 + n)"
proof -
  have pos: "0 < x" using assms(1) by (rule less_le_trans [rotated]) simp
  have "binade x = - int n"
  proof (rule binade_eqI [OF pos])
    show "- 1022 \<le> - int n" using assms(3) by simp
    show "2 powr of_int (- int n) \<le> x" using assms(1) by (simp add: two_powr_neg_nat)
    have "2 powr (- real n + 1) = 2 powr (- real n) * 2 powr 1" by (rule powr_add)
    then have "2 powr (- real n + 1) = 2 / 2 ^ n" by (simp add: two_powr_neg_nat)
    then show "x < 2 powr (of_int (- int n) + 1)" using assms(2) by simp
  qed
  then have "ulp x = 2 powr (- real (52 + n))"
    by (simp add: ulp_def algebra_simps)
  then have "ulp x = 1 / 2 ^ (52 + n)" by (simp only: two_powr_neg_nat)
  with pos show ?thesis by (simp add: fl_def)
qed

lemma fl_1: "fl 1 = 1"
  using fl_binade_pos [of 0 1] by (simp add: round_even_def)

lemma fl_nat:
  assumes "k \<le> 2 ^ 53"
  shows "fl (real k) = real k"
proof (cases "k = 0")
  case True
  then show ?thesis by (simp add: fl_def)
next
  case False
  then have k1: "1 \<le> real k" by simp
  then have pos: "0 < real k" by simp
  have n: "2 powr (- 1022) \<le> real k"
  proof -
    have "(2::real) powr (- 1022) \<le> 2 powr 0" by (rule powr_mono) simp_all
    with k1 show ?thesis by simp
  qed
  define e where "e = binade (real k)"
  have lo: "2 powr of_int e \<le> real k" unfolding e_def using n by (rule binade_lower)
  have "0 \<le> log 2 (real k)" using k1 by simp
  then have "0 \<le> \<lfloor>log 2 (real k)\<rfloor>" by simp
  then have e0: "0 \<le> e" by (simp add: e_def binade_def)
  have "real k \<le> real (2 ^ 53)" using assms by (simp only: of_nat_le_iff)
  then have k53: "real k \<le> 2 ^ 53" by simp
  have "(2::real) powr 53 = 2 ^ 53" by simp
  with lo k53 have "(2::real) powr of_int e \<le> 2 powr 53" by linarith
  then have "real_of_int e \<le> 53" by (subst (asm) powr_le_cancel_iff) simp_all
  then have e53: "e \<le> 53" by linarith
  obtain m where m: "e = int m" using e0 by (metis nonneg_int_cases)
  with e53 have m53: "m \<le> 53" by simp
  have u: "ulp (real k) = 2 powr (real m - 52)" by (simp add: ulp_def e_def [symmetric] m)
  show ?thesis
  proof (cases "m \<le> 52")
    case True
    then have "real m - 52 = - real (52 - m)" by (simp add: of_nat_diff)
    with u have "ulp (real k) = 1 / 2 ^ (52 - m)" by (simp only: two_powr_neg_nat)
    then have "real k = of_int (int (k * 2 ^ (52 - m))) * ulp (real k)" by simp
    then show ?thesis by (rule fl_exact)
  next
    case False
    with m53 have m_eq: "m = 53" by simp
    with lo m have "2 ^ 53 \<le> real k" by simp
    with k53 have k_eq: "real k = 2 ^ 53" by simp
    from u m_eq have "ulp (real k) = 2" by simp
    with k_eq have "real k = of_int (2 ^ 52) * ulp (real k)" by simp
    then show ?thesis by (rule fl_exact)
  qed
qed

lemma fl_err_ulp: "\<bar>fl x - x\<bar> \<le> ulp x / 2"
proof (cases "x = 0")
  case True
  then show ?thesis using ulp_pos [of x] by (simp add: fl_def)
next
  case False
  have "fl x - x = (of_int (round_even (x / ulp x)) - x / ulp x) * ulp x"
    using False ulp_pos [of x] by (simp add: fl_def algebra_simps)
  then have "\<bar>fl x - x\<bar> = \<bar>of_int (round_even (x / ulp x)) - x / ulp x\<bar> * ulp x"
    using ulp_pos [of x] by (simp add: abs_mult)
  also have "\<dots> \<le> 1 / 2 * ulp x"
    using round_even_err [of "x / ulp x"] ulp_pos [of x] by (intro mult_right_mono) simp_all
  finally show ?thesis by simp
qed

lemma fl_err:
  assumes "0 \<le> x" and "x \<le> N" and "1 \<le> N"
  shows "\<bar>fl x - x\<bar> \<le> N / 2 ^ 53"
proof (cases "2 powr (- 1022) \<le> x")
  case True
  then have "2 powr of_int (binade x) \<le> x" by (rule binade_lower)
  then have "2 powr of_int (binade x) / 2 ^ 52 \<le> x / 2 ^ 52" by (simp add: divide_right_mono)
  moreover have "ulp x = 2 powr of_int (binade x) / 2 ^ 52"
    by (simp add: ulp_def powr_diff)
  ultimately have "ulp x / 2 \<le> x / 2 ^ 53" by simp
  also have "\<dots> \<le> N / 2 ^ 53" using assms(2) by (simp add: divide_right_mono)
  finally show ?thesis using fl_err_ulp [of x] by linarith
next
  case False
  then have lt: "x < 2 powr (- 1022)" by simp
  show ?thesis
  proof (cases "x = 0")
    case True
    then show ?thesis using assms(3) by (simp add: fl_def)
  next
    case False
    with assms(1) have pos: "0 < x" by simp
    with lt have "log 2 x < - 1022" by (simp add: log_less_iff)
    then have "\<lfloor>log 2 x\<rfloor> < - 1022" by (simp add: floor_less_iff)
    with pos have "binade x = - 1022" by (simp add: binade_def)
    then have "ulp x = 2 powr (- 1074)" by (simp add: ulp_def)
    moreover have "(2::real) powr (- 1074) \<le> 2 powr (- 52)" by (rule powr_mono) simp_all
    moreover have "(2::real) powr (- 52) = 1 / 2 ^ 52" by (simp add: powr_minus_divide)
    ultimately have "ulp x / 2 \<le> 1 / 2 ^ 53" by simp
    also have "\<dots> \<le> N / 2 ^ 53" using assms(3) by (simp add: divide_right_mono)
    finally show ?thesis using fl_err_ulp [of x] by linarith
  qed
qed

lemma fl_one_minus:
  assumes "fl c = c" and "1 / 2 \<le> c" and "c \<le> 1"
  shows "fl (1 - c) = 1 - c"
proof (cases "c = 1")
  case True
  then show ?thesis by (simp add: fl_0)
next
  case False
  with assms(3) have c1: "c < 1" by simp
  define m where "m = round_even (c * 2 ^ 53)"
  have "fl c = of_int m / 2 ^ 53"
    using fl_binade_neg [of 1 c] assms(2) c1 by (simp add: m_def)
  with assms(1) have c: "c = of_int m / 2 ^ 53" by simp
  define x where "x = 1 - c"
  have x: "x = of_int (2 ^ 53 - m) / 2 ^ 53" by (simp add: x_def c diff_divide_distrib)
  have xpos: "0 < x" and xhalf: "x \<le> 1 / 2" using c1 assms(2) by (simp_all add: x_def)
  have "log 2 x \<le> log 2 (1 / 2)" using xpos xhalf by (intro log_mono) simp_all
  also have "log 2 (1 / 2) = - 1" by (simp add: log_divide)
  finally have "\<lfloor>log 2 x\<rfloor> \<le> - 1" by (simp add: floor_le_iff)
  then have "binade x \<le> - 1" using xpos by (simp add: binade_def)
  then obtain n where n: "binade x = - 1 - int n"
    by (metis add.commute diff_add_cancel diff_ge_0_iff_ge minus_diff_eq nonneg_int_cases uminus_add_conv_diff)
  have "ulp x = 2 powr (- real (53 + n))" by (simp add: ulp_def n)
  then have u: "ulp x = 1 / 2 ^ (53 + n)" by (simp only: two_powr_neg_nat)
  have e: "of_int ((2 ^ 53 - m) * 2 ^ n) * (1 / 2 ^ (53 + n))
      = (of_int (2 ^ 53 - m) / 2 ^ 53 :: real)"
    by (simp add: power_add)
  have "x = of_int ((2 ^ 53 - m) * 2 ^ n) * ulp x"
    by (subst u, subst e, rule x)
  then have "fl x = x" by (rule fl_exact)
  then show ?thesis by (simp only: x_def)
qed

section \<open>Properties of the scores and the rendering\<close>

lemma set_replace_char:
  "set (replace_char c r s) = (set s - {c}) \<union> (if c \<in> set s then set r else {})"
  by (induction s) (auto simp: replace_char_def)

lemma html_escape_chars:
  "CHR ''<'' \<notin> set (html_escape s)" "CHR ''>'' \<notin> set (html_escape s)"
  "CHR 0x22 \<notin> set (html_escape s)" "CHR 0x27 \<notin> set (html_escape s)"
  by (simp_all add: html_escape_def set_replace_char)

lemma highlight_concat:
  "highlight sentences scores
     = concat (map (\<lambda>(sent, score). span (highlight_color score) (html_escape sent))
                (zip sentences scores))"
proof -
  have "foldl (\<lambda>highlighted_text (sent, score).
              highlighted_text @ span (highlight_color score) (html_escape sent)) acc ps
     = acc @ concat (map (\<lambda>(sent, score). span (highlight_color score) (html_escape sent)) ps)"
    for acc ps
    by (induction ps arbitrary: acc) (simp_all add: case_prod_beta)
  then show ?thesis by (simp add: highlight_def)
qed

lemma script_skip_char:
  "x \<noteq> CHR ''<'' \<Longrightarrow> sublist ''<script>'' (x # ys) \<longleftrightarrow> sublist ''<script>'' ys"
  by (simp add: sublist_Cons_right)

lemma script_skip_list:
  "CHR ''<'' \<notin> set xs \<Longrightarrow> sublist ''<script>'' (xs @ ys) \<longleftrightarrow> sublist ''<script>'' ys"
  by (induction xs) (auto simp: script_skip_char)

lemma script_skip_tag:
  "x \<noteq> CHR ''s'' \<or> y \<noteq> CHR ''c'' \<Longrightarrow>
     sublist ''<script>'' (CHR ''<'' # x # y # ys) \<longleftrightarrow> sublist ''<script>'' (x # y # ys)"
  by (auto simp: sublist_Cons_right)

lemma highlight_color_chars: "CHR ''<'' \<notin> set (highlight_color score)"
  by (simp add: highlight_color_def strong_color_def moderate_color_def none_color_def)

lemma span_no_script:
  assumes "CHR ''<'' \<notin> set color" and "CHR ''<'' \<notin> set safe_sent"
  shows "sublist ''<script>'' (span color safe_sent @ rest) \<longleftrightarrow> sublist ''<script>'' rest"
proof -
  have "sublist ''<script>'' (span color safe_sent @ rest)
      \<longleftrightarrow> sublist ''<script>'' (color @ ''; padding: 2px 1px; line-height: 1.7;'' @ [CHR 0x22] @ ''>''
       @ safe_sent @ ''</span> '' @ rest)"
    by (simp add: span_def script_skip_char script_skip_tag)
  also have "\<dots> \<longleftrightarrow> sublist ''<script>'' (''; padding: 2px 1px; line-height: 1.7;'' @ [CHR 0x22] @ ''>''
       @ safe_sent @ ''</span> '' @ rest)"
    using assms(1) by (rule script_skip_list)
  also have "\<dots> \<longleftrightarrow> sublist ''<script>'' (safe_sent @ ''</span> '' @ rest)"
    by (simp add: script_skip_char)
  also have "\<dots> \<longleftrightarrow> sublist ''<script>'' (''</span> '' @ rest)"
    using assms(2) by (rule script_skip_list)
  also have "\<dots> \<longleftrightarrow> sublist ''<script>'' rest"
    by (simp add: script_skip_char script_skip_tag)
  finally show ?thesis .
qed

lemma highlight_no_script: "\<not> sublist ''<script>'' (highlight sentences scores)"
proof -
  have "\<not> sublist ''<script>''
      (concat (map (\<lambda>(sent, score). span (highlight_color score) (html_escape sent)) ps))" for ps
  proof (induction ps)
    case Nil
    show ?case by simp
  next
    case (Cons p ps)
    obtain sent score where p: "p = (sent, score)" by (cases p)
    show ?case
      using Cons unfolding p
      by (simp add: span_no_script highlight_color_chars html_escape_chars)
  qed
  then show ?thesis unfolding highlight_concat .
qed


lemma replace_char_append:
  "replace_char c r (xs @ ys) = replace_char c r xs @ replace_char c r ys"
  by (simp add: replace_char_def)

lemma html_escape_pointwise: "html_escape s = concat (map escape_char s)"
proof (induction s)
  case Nil
  show ?case by (simp add: html_escape_def replace_char_def)
next
  case (Cons x xs)
  have one: "html_escape [x] = escape_char x"
    by (simp add: html_escape_def replace_char_def escape_char_def)
  have "html_escape ([x] @ xs) = html_escape [x] @ html_escape xs"
    by (simp only: html_escape_def replace_char_append)
  with one Cons show ?case by simp
qed

lemma sentence_scores_map: "sentence_scores results = map clamped results"
proof -
  have "foldl (\<lambda>acc result. acc @ [clamped result]) acc results = acc @ map clamped results"
    for acc
    by (induction results arbitrary: acc) simp_all
  then show ?thesis by (simp add: sentence_scores_def)
qed

lemma float_of_nat_exact: "n \<le> 2 ^ 53 \<Longrightarrow> float_of_nat n = real n"
  unfolding float_of_nat_def by (rule fl_nat)

lemma float_of_nat_pos:
  assumes "0 < n"
  shows "1 \<le> float_of_nat n"
proof -
  from assms have "(1::real) \<le> real n" by simp
  with fl_mono [of 1 "real n"] have "fl 1 \<le> fl (real n)" by simp
  then show ?thesis by (simp only: fl_1 float_of_nat_def)
qed

lemma overall_prob_Inr:
  assumes "scores \<noteq> []"
  shows "overall_prob scores
    = Inr (fl (sum_floats scores / float_of_nat (length scores)))"
proof -
  from assms have "0 < length scores" by simp
  then have "1 \<le> float_of_nat (length scores)" by (rule float_of_nat_pos)
  then have "float_of_nat (length scores) \<noteq> 0" by simp
  with assms show ?thesis by (simp add: overall_prob_def truediv_def)
qed

lemma foldl_fl_bounds:
  assumes "\<forall>x \<in> set xs. 0 \<le> x \<and> x \<le> 1"
    and "0 \<le> acc" and "acc \<le> real a" and "a + length xs \<le> 2 ^ 53"
  shows "0 \<le> foldl (\<lambda>acc x. fl (acc + x)) acc xs
    \<and> foldl (\<lambda>acc x. fl (acc + x)) acc xs \<le> real (a + length xs)"
  using assms
proof (induction xs arbitrary: acc a)
  case Nil
  then show ?case by simp
next
  case (Cons x xs)
  from Cons.prems have x: "0 \<le> x" "x \<le> 1" by simp_all
  from Cons.prems have a1: "Suc a \<le> 2 ^ 53" by simp
  have lo: "0 \<le> fl (acc + x)"
    using Cons.prems(2) x(1) by (intro fl_nonneg) simp
  have "fl (acc + x) \<le> fl (real (Suc a))"
    using Cons.prems(2,3) x by (intro fl_mono) simp_all
  also have "\<dots> = real (Suc a)" using a1 by (rule fl_nat)
  finally have hi: "fl (acc + x) \<le> real (Suc a)" .
  have "0 \<le> foldl (\<lambda>acc x. fl (acc + x)) (fl (acc + x)) xs
    \<and> foldl (\<lambda>acc x. fl (acc + x)) (fl (acc + x)) xs \<le> real (Suc a + length xs)"
    using Cons.prems(1,4) lo hi by (intro Cons.IH) simp_all
  then show ?case by simp
qed

lemma foldl_fl_err:
  assumes "\<forall>x \<in> set xs. 0 \<le> x \<and> x \<le> 1"
    and "0 \<le> acc" and "acc \<le> real a" and "a + length xs \<le> 2 ^ 53"
  shows "\<bar>foldl (\<lambda>acc x. fl (acc + x)) acc xs - (acc + sum_list xs)\<bar>
    \<le> real (length xs) * real (a + length xs) / 2 ^ 53"
  using assms
proof (induction xs arbitrary: acc a)
  case Nil
  then show ?case by simp
next
  case (Cons x xs)
  let ?n = "real (Suc a + length xs)"
  from Cons.prems have x: "0 \<le> x" "x \<le> 1" by simp_all
  from Cons.prems have a1: "Suc a \<le> 2 ^ 53" by simp
  have lo: "0 \<le> fl (acc + x)"
    using Cons.prems(2) x(1) by (intro fl_nonneg) simp
  have "fl (acc + x) \<le> fl (real (Suc a))"
    using Cons.prems(2,3) x by (intro fl_mono) simp_all
  also have "\<dots> = real (Suc a)" using a1 by (rule fl_nat)
  finally have hi: "fl (acc + x) \<le> real (Suc a)" .
  have step: "\<bar>fl (acc + x) - (acc + x)\<bar> \<le> ?n / 2 ^ 53"
    using Cons.prems(2,3) x by (intro fl_err) simp_all
  have rest: "\<bar>foldl (\<lambda>acc x. fl (acc + x)) (fl (acc + x)) xs - (fl (acc + x) + sum_list xs)\<bar>
    \<le> real (length xs) * ?n / 2 ^ 53"
    using Cons.prems(1,4) lo hi by (intro Cons.IH) simp_all
  have "\<bar>foldl (\<lambda>acc x. fl (acc + x)) (fl (acc + x)) xs - (acc + x + sum_list xs)\<bar>
    \<le> real (length xs) * ?n / 2 ^ 53 + ?n / 2 ^ 53"
    using step rest by linarith
  also have "\<dots> = real (length (x # xs)) * real (a + length (x # xs)) / 2 ^ 53"
    by (simp add: algebra_simps add_divide_distrib)
  finally show ?case by (simp add: algebra_simps)
qed

lemma sum_floats_bounds:
  assumes "\<forall>x \<in> set xs. 0 \<le> x \<and> x \<le> 1" and "length xs \<le> 2 ^ 53"
  shows "0 \<le> sum_floats xs" and "sum_floats xs \<le> real (length xs)"
    and "\<bar>sum_floats xs - sum_list xs\<bar> \<le> real (length xs) * real (length xs) / 2 ^ 53"
  using foldl_fl_bounds [of xs 0 0] foldl_fl_err [of xs 0 0] assms
  by (simp_all add: sum_floats_def)

subsection \<open>The highlight tiers\<close>

text \<open>
  Claim C2. The colour of a sentence is a function of its score alone: above 0.75 the
  strong colour, above 0.5 and up to 0.75 the moderate colour, up to 0.5 no highlight.
  A score of exactly 0.75 gives the moderate colour, and the three colours differ.
\<close>

theorem highlight_tiers:
  "(score > 0.75 \<longrightarrow> highlight_color score = strong_color)
   \<and> (0.5 < score \<and> score \<le> 0.75 \<longrightarrow> highlight_color score = moderate_color)
   \<and> (score \<le> 0.5 \<longrightarrow> highlight_color score = none_color)
   \<and> highlight_color 0.75 = moderate_color
   \<and> strong_color \<noteq> moderate_color \<and> moderate_color \<noteq> none_color
   \<and> strong_color \<noteq> none_color"
  by (simp add: highlight_color_def strong_color_def moderate_color_def none_color_def)

theorem highlight_tiers_witness:
  "highlight_color 0.9 = strong_color \<and> highlight_color 0.6 = moderate_color
   \<and> highlight_color 0.5 = none_color \<and> highlight_color 0.2 = none_color"
  using highlight_tiers [of "0.9"] highlight_tiers [of "0.6"] highlight_tiers [of "0.5"]
    highlight_tiers [of "0.2"]
  by simp

subsection \<open>The verdict tiers\<close>



subsection \<open>Score normalization\<close>

text \<open>
  Claim C4 says that for a confidence between 0 and 1 and a label other than
  \<open>fake\<close> the score is one minus the confidence exactly. The program subtracts in
  floats: for the label \<open>Real\<close> and the confidence 0.24999999999999997, which is a
  double, the score is 0.75, and that is not one minus the confidence.
\<close>

theorem normalize_score_counterexample:
  "fl (9007199254740991 / 36028797018963968) = 9007199254740991 / 36028797018963968
   \<and> clamped \<lparr>result_label = ''Real'',
                result_score = 9007199254740991 / 36028797018963968\<rparr> = 3 / 4
   \<and> 1 - 9007199254740991 / 36028797018963968 \<noteq> (3 / 4 :: real)"
proof -
  have d: "fl (9007199254740991 / 36028797018963968) = 9007199254740991 / 36028797018963968"
    using fl_binade_neg [of 3 "9007199254740991 / 36028797018963968"]
    by (simp add: round_even_def)
  have r: "fl (27021597764222977 / 36028797018963968) = 3 / 4"
    using fl_binade_neg [of 1 "27021597764222977 / 36028797018963968"]
    by (simp add: round_even_def)
  have l: "lower ''Real'' \<noteq> ''fake''" by code_simp
  from d r l show ?thesis by (simp add: clamped_def ai_prob_def)
qed

text \<open>
  Claim C4, amended. The score of a sentence is the classifier's confidence when the
  label is \<open>fake\<close> up to case, and for every other label the float difference
  \<open>1.0 - confidence\<close>, that is one minus the confidence rounded to the nearest double,
  clamped into the interval from 0 to 1. It always lies in that interval. For a
  confidence in the interval the clamp changes nothing, and the score differs from the
  confidence, or from one minus the confidence, by at most \<open>2 ^ -53\<close>. For a
  confidence that is a double between one half and 1 the subtraction is exact, and the
  score is the confidence or one minus the confidence.
\<close>

theorem normalize_score:
  "clamped result
     = max 0 (min 1 (if lower (result_label result) = lower ''fake''
                     then result_score result else fl (1 - result_score result)))
   \<and> 0 \<le> clamped result \<and> clamped result \<le> 1
   \<and> (0 \<le> result_score result \<and> result_score result \<le> 1 \<longrightarrow>
        clamped result = (if lower (result_label result) = lower ''fake''
                          then result_score result else fl (1 - result_score result))
        \<and> \<bar>clamped result - (if lower (result_label result) = lower ''fake''
                               then result_score result else 1 - result_score result)\<bar>
            \<le> 1 / 2 ^ 53)
   \<and> (fl (result_score result) = result_score result
        \<and> 1 / 2 \<le> result_score result \<and> result_score result \<le> 1 \<longrightarrow>
        clamped result = (if lower (result_label result) = lower ''fake''
                          then result_score result else 1 - result_score result))"
proof (intro conjI impI)
  have f: "lower ''fake'' = ''fake''" by code_simp
  show "clamped result
     = max 0 (min 1 (if lower (result_label result) = lower ''fake''
                     then result_score result else fl (1 - result_score result)))"
    by (simp add: clamped_def ai_prob_def f)
  show "0 \<le> clamped result" and "clamped result \<le> 1"
    by (simp_all add: clamped_def)
  assume c: "0 \<le> result_score result \<and> result_score result \<le> 1"
  have "fl 0 \<le> fl (1 - result_score result)" using c by (intro fl_mono) simp_all
  then have lo: "0 \<le> fl (1 - result_score result)" by (simp only: fl_0)
  have "fl (1 - result_score result) \<le> fl 1" using c by (intro fl_mono) simp_all
  then have hi: "fl (1 - result_score result) \<le> 1" by (simp only: fl_1)
  from c lo hi show eq: "clamped result = (if lower (result_label result) = lower ''fake''
      then result_score result else fl (1 - result_score result))"
    by (simp add: clamped_def ai_prob_def f)
  have "\<bar>fl (1 - result_score result) - (1 - result_score result)\<bar> \<le> 1 / 2 ^ 53"
    using c by (intro fl_err) simp_all
  then show "\<bar>clamped result - (if lower (result_label result) = lower ''fake''
      then result_score result else 1 - result_score result)\<bar> \<le> 1 / 2 ^ 53"
    unfolding eq by simp
next
  have f: "lower ''fake'' = ''fake''" by code_simp
  assume d: "fl (result_score result) = result_score result
    \<and> 1 / 2 \<le> result_score result \<and> result_score result \<le> 1"
  then have "fl (1 - result_score result) = 1 - result_score result"
    using fl_one_minus by blast
  with d show "clamped result = (if lower (result_label result) = lower ''fake''
      then result_score result else 1 - result_score result)"
    by (simp add: clamped_def ai_prob_def f)
qed

theorem normalize_score_witness:
  "clamped \<lparr>result_label = ''FAKE'', result_score = 8106479329266893 / 9007199254740992\<rparr>
     = 8106479329266893 / 9007199254740992
   \<and> fl (3602879701896397 / 4503599627370496) = 3602879701896397 / 4503599627370496
   \<and> clamped \<lparr>result_label = ''Real'', result_score = 3602879701896397 / 4503599627370496\<rparr>
     = 900719925474099 / 4503599627370496
   \<and> clamped \<lparr>result_label = ''LABEL_2'', result_score = 1\<rparr> = 0"
proof -
  have 1: "lower ''FAKE'' = lower ''fake''" by code_simp
  have 2: "lower ''Real'' \<noteq> lower ''fake''" by code_simp
  have 3: "lower ''LABEL_2'' \<noteq> lower ''fake''" by code_simp
  have r: "fl (3602879701896397 / 4503599627370496) = 3602879701896397 / 4503599627370496"
    using fl_binade_neg [of 1 "3602879701896397 / 4503599627370496"]
    by (simp add: round_even_def)
  from 1 2 3 r fl_0
    normalize_score [of "\<lparr>result_label = ''FAKE'',
      result_score = 8106479329266893 / 9007199254740992\<rparr>"]
    normalize_score [of "\<lparr>result_label = ''Real'',
      result_score = 3602879701896397 / 4503599627370496\<rparr>"]
    normalize_score [of "\<lparr>result_label = ''LABEL_2'', result_score = 1\<rparr>"]
  show ?thesis by simp
qed

subsection \<open>The overall probability\<close>

text \<open>
  Claim C5 says that the overall probability of a non-empty list of scores is their
  arithmetic mean. The program adds and divides in floats: for three scores of 0.7 (the
  double written so) it returns 0.6999999999999998, and their mean is 0.7.
\<close>

theorem aggregate_mean_counterexample:
  "fl (3152519739159347 / 4503599627370496) = 3152519739159347 / 4503599627370496
   \<and> overall_prob [3152519739159347 / 4503599627370496, 3152519739159347 / 4503599627370496,
        3152519739159347 / 4503599627370496]
      = Inr (6305039478318693 / 9007199254740992)
   \<and> sum_list [3152519739159347 / 4503599627370496, 3152519739159347 / 4503599627370496,
        3152519739159347 / 4503599627370496] / 3
      = (3152519739159347 / 4503599627370496 :: real)
   \<and> (6305039478318693 / 9007199254740992 :: real) \<noteq> 3152519739159347 / 4503599627370496"
proof -
  have s1: "fl (3152519739159347 / 4503599627370496) = 3152519739159347 / 4503599627370496"
    using fl_binade_neg [of 1 "3152519739159347 / 4503599627370496"]
    by (simp add: round_even_def)
  have s2: "fl (3152519739159347 / 2251799813685248) = 3152519739159347 / 2251799813685248"
    using fl_binade_pos [of 0 "3152519739159347 / 2251799813685248"]
    by (simp add: round_even_def)
  have s3: "fl (9457559217478041 / 4503599627370496) = 1182194902184755 / 562949953421312"
    using fl_binade_pos [of 1 "9457559217478041 / 4503599627370496"]
    by (simp add: round_even_def)
  have s4: "float_of_nat 3 = 3"
    using float_of_nat_exact [of 3] by simp
  have s5: "fl (1182194902184755 / 1688849860263936) = 6305039478318693 / 9007199254740992"
    using fl_binade_neg [of 1 "1182194902184755 / 1688849860263936"]
    by (simp add: round_even_def)
  let ?xs = "[3152519739159347 / 4503599627370496, 3152519739159347 / 4503599627370496,
        3152519739159347 / 4503599627370496] :: real list"
  have sm: "sum_floats ?xs = 1182194902184755 / 562949953421312"
    by (simp add: sum_floats_def s1 s2 s3)
  have ne: "?xs \<noteq> []" by simp
  have len: "length ?xs = 3" by simp
  have dv: "1182194902184755 / 562949953421312 / 3 = (1182194902184755 / 1688849860263936 :: real)"
    by simp
  have o: "overall_prob ?xs = Inr (6305039478318693 / 9007199254740992)"
    by (simp only: overall_prob_Inr [OF ne] len sm s4 dv s5)
  have m: "sum_list ?xs / 3 = (3152519739159347 / 4503599627370496 :: real)" by simp
  have d: "(6305039478318693 / 9007199254740992 :: real) \<noteq> 3152519739159347 / 4503599627370496"
    by simp
  from s1 o m d show ?thesis by blast
qed

text \<open>
  Claim C5, amended. For a non-empty list of at most \<open>2 ^ 53\<close> scores between 0 and 1
  the overall probability is the float sum of the scores, added from the left, divided in
  floats by their number. It lies between 0 and 1 and differs from the arithmetic mean
  by at most \<open>(n + 1) / 2 ^ 53\<close> for \<open>n\<close> scores. For the empty list it is 0. The
  division never fails, and the scores that the first loop produces are all between 0
  and 1.
\<close>

theorem aggregate_mean:
  "(scores \<noteq> [] \<and> (\<forall>x \<in> set scores. 0 \<le> x \<and> x \<le> 1) \<and> length scores \<le> 2 ^ 53 \<longrightarrow>
      overall_prob scores = Inr (fl (sum_floats scores / real (length scores)))
      \<and> 0 \<le> fl (sum_floats scores / real (length scores))
      \<and> fl (sum_floats scores / real (length scores)) \<le> 1
      \<and> \<bar>fl (sum_floats scores / real (length scores))
           - sum_list scores / real (length scores)\<bar>
          \<le> (real (length scores) + 1) / 2 ^ 53)
   \<and> overall_prob [] = Inr 0
   \<and> overall_prob scores \<noteq> Inl e
   \<and> (\<forall>x \<in> set (sentence_scores results). 0 \<le> x \<and> x \<le> 1)"
proof (intro conjI impI)
  assume a: "scores \<noteq> [] \<and> (\<forall>x \<in> set scores. 0 \<le> x \<and> x \<le> 1) \<and> length scores \<le> 2 ^ 53"
  let ?n = "real (length scores)"
  let ?q = "sum_floats scores / ?n"
  from a have n: "0 < ?n" by simp
  from a have s: "0 \<le> sum_floats scores" "sum_floats scores \<le> ?n"
    and e: "\<bar>sum_floats scores - sum_list scores\<bar> \<le> ?n * ?n / 2 ^ 53"
    using sum_floats_bounds [of scores] by blast+
  from s n have q: "0 \<le> ?q" "?q \<le> 1" by simp_all
  from a show "overall_prob scores = Inr (fl ?q)"
    by (simp add: overall_prob_Inr float_of_nat_exact)
  from q(1) show "0 \<le> fl ?q" by (rule fl_nonneg)
  have "fl ?q \<le> fl 1" using q by (rule fl_mono)
  then show "fl ?q \<le> 1" by (simp only: fl_1)
  have r: "\<bar>fl ?q - ?q\<bar> \<le> 1 / 2 ^ 53" using q by (intro fl_err) simp_all
  have "\<bar>?q - sum_list scores / ?n\<bar> = \<bar>sum_floats scores - sum_list scores\<bar> / ?n"
    using n by (simp add: diff_divide_distrib [symmetric])
  also have "\<dots> \<le> (?n * ?n / 2 ^ 53) / ?n"
    using e n by (intro divide_right_mono) simp_all
  also have "\<dots> = ?n / 2 ^ 53" using n by simp
  finally have "\<bar>?q - sum_list scores / ?n\<bar> \<le> ?n / 2 ^ 53" .
  with r have "\<bar>fl ?q - sum_list scores / ?n\<bar> \<le> ?n / 2 ^ 53 + 1 / 2 ^ 53" by linarith
  then show "\<bar>fl ?q - sum_list scores / ?n\<bar> \<le> (?n + 1) / 2 ^ 53"
    by (simp add: add_divide_distrib)
next
  show "overall_prob [] = Inr 0" by (simp add: overall_prob_def)
next
  show "overall_prob scores \<noteq> Inl e"
    by (cases "scores = []") (simp_all add: overall_prob_Inr, simp add: overall_prob_def)
next
  show "\<forall>x \<in> set (sentence_scores results). 0 \<le> x \<and> x \<le> 1"
    by (auto simp: sentence_scores_map clamped_def)
qed

theorem aggregate_mean_witness:
  "overall_prob [8106479329266893 / 9007199254740992, 900719925474099 / 4503599627370496]
     = Inr (2476979795053773 / 4503599627370496)
   \<and> sentence_scores [\<lparr>result_label = ''fake'', result_score = 1 / 2\<rparr>] \<noteq> []"
proof -
  have n: "sentence_scores [\<lparr>result_label = ''fake'', result_score = 1 / 2\<rparr>] \<noteq> []"
    by (simp add: sentence_scores_def)
  have s1: "fl (8106479329266893 / 9007199254740992) = 8106479329266893 / 9007199254740992"
    using fl_binade_neg [of 1 "8106479329266893 / 9007199254740992"]
    by (simp add: round_even_def)
  have s2: "fl (9907919180215091 / 9007199254740992) = 2476979795053773 / 2251799813685248"
    using fl_binade_pos [of 0 "9907919180215091 / 9007199254740992"]
    by (simp add: round_even_def)
  have s: "sum_floats [8106479329266893 / 9007199254740992, 900719925474099 / 4503599627370496]
      = 2476979795053773 / 2251799813685248"
    by (simp add: sum_floats_def s1 s2)
  have q: "fl (2476979795053773 / 4503599627370496) = 2476979795053773 / 4503599627370496"
    using fl_binade_neg [of 1 "2476979795053773 / 4503599627370496"]
    by (simp add: round_even_def)
  let ?xs = "[8106479329266893 / 9007199254740992, 900719925474099 / 4503599627370496]
    :: real list"
  have h: "?xs \<noteq> [] \<and> (\<forall>x \<in> set ?xs. 0 \<le> x \<and> x \<le> 1) \<and> length ?xs \<le> 2 ^ 53"
    by simp
  have len: "real (length ?xs) = 2" by simp
  have dv: "2476979795053773 / 2251799813685248 / 2 = (2476979795053773 / 4503599627370496 :: real)"
    by simp
  from h aggregate_mean [of ?xs]
  have "overall_prob ?xs = Inr (fl (sum_floats ?xs / real (length ?xs)))" by blast
  then have "overall_prob ?xs = Inr (2476979795053773 / 4503599627370496)"
    by (simp only: len s dv q)
  with n show ?thesis by blast
qed

subsection \<open>Escaping\<close>

lemma highlight_color_no_gt: "CHR ''>'' \<notin> set (highlight_color score)"
  by (simp add: highlight_color_def strong_color_def moderate_color_def none_color_def)

lemma span_count_lt:
  assumes "CHR ''<'' \<notin> set color" and "CHR ''<'' \<notin> set safe_sent"
  shows "count_list (span color safe_sent) CHR ''<'' = 2"
proof -
  from assms have "count_list color CHR ''<'' = 0" and "count_list safe_sent CHR ''<'' = 0"
    by (simp_all only: count_list_0_iff not_False_eq_True)
  then show ?thesis by (simp add: span_def)
qed

lemma span_count_gt:
  assumes "CHR ''>'' \<notin> set color" and "CHR ''>'' \<notin> set safe_sent"
  shows "count_list (span color safe_sent) CHR ''>'' = 2"
proof -
  from assms have "count_list color CHR ''>'' = 0" and "count_list safe_sent CHR ''>'' = 0"
    by (simp_all only: count_list_0_iff not_False_eq_True)
  then show ?thesis by (simp add: span_def)
qed

lemma span_count:
  assumes "c = CHR ''<'' \<or> c = CHR ''>''" and "c \<notin> set color" and "c \<notin> set safe_sent"
  shows "count_list (span color safe_sent) c = 2"
  using assms span_count_lt span_count_gt by blast

lemma highlight_count:
  assumes "c = CHR ''<'' \<or> c = CHR ''>''"
  shows "count_list (highlight sentences scores) c = 2 * length (zip sentences scores)"
proof -
  have "count_list
      (concat (map (\<lambda>(sent, score). span (highlight_color score) (html_escape sent)) ps)) c
      = 2 * length ps" for ps
  proof (induction ps)
    case Nil
    show ?case by simp
  next
    case (Cons p ps)
    obtain sent score where p: "p = (sent, score)" by (cases p)
    have "c \<notin> set (highlight_color score)" and "c \<notin> set (html_escape sent)"
      using assms highlight_color_chars highlight_color_no_gt html_escape_chars(1,2) by blast+
    with assms have "count_list (span (highlight_color score) (html_escape sent)) c = 2"
      by (rule span_count)
    with Cons show ?case unfolding p by simp
  qed
  then show ?thesis unfolding highlight_concat .
qed

text \<open>
  Claim C8. The highlighted text is the spans of the sentences in order, each around the
  escaped sentence. Escaping replaces every character with a meaning in markup, the
  ampersand too, by its entity, so that an escaped sentence contains none of \<open><\<close>,
  \<open>>\<close> and the two quotes. Hence every \<open><\<close> and \<open>>\<close> of the highlighted text
  belongs to the two tags of a span, and neither an escaped sentence nor the highlighted
  text contains \<open><script>\<close>, whatever the sentences are.
\<close>

theorem rendering_escapes:
  "highlight sentences scores
     = concat (map (\<lambda>(sent, score). span (highlight_color score) (html_escape sent))
                (zip sentences scores))
   \<and> html_escape sent = concat (map escape_char sent)
   \<and> CHR ''<'' \<notin> set (html_escape sent) \<and> CHR ''>'' \<notin> set (html_escape sent)
   \<and> CHR 0x22 \<notin> set (html_escape sent) \<and> CHR 0x27 \<notin> set (html_escape sent)
   \<and> \<not> sublist ''<script>'' (html_escape sent)
   \<and> \<not> sublist ''<script>'' (highlight sentences scores)
   \<and> count_list (highlight sentences scores) CHR ''<'' = 2 * length (zip sentences scores)
   \<and> count_list (highlight sentences scores) CHR ''>'' = 2 * length (zip sentences scores)
   \<and> html_escape ''a<script>b'' = ''a&lt;script&gt;b''
   \<and> highlight [''<script>''] [0] = span none_color ''&lt;script&gt;''"
proof (intro conjI)
  show "highlight sentences scores
     = concat (map (\<lambda>(sent, score). span (highlight_color score) (html_escape sent))
                (zip sentences scores))"
    by (rule highlight_concat)
  show "html_escape sent = concat (map escape_char sent)" by (rule html_escape_pointwise)
  show "CHR ''<'' \<notin> set (html_escape sent)" by (rule html_escape_chars(1))
  show "CHR ''>'' \<notin> set (html_escape sent)" by (rule html_escape_chars(2))
  show "CHR 0x22 \<notin> set (html_escape sent)" by (rule html_escape_chars(3))
  show "CHR 0x27 \<notin> set (html_escape sent)" by (rule html_escape_chars(4))
  have "sublist ''<script>'' (html_escape sent @ []) \<longleftrightarrow> sublist ''<script>'' []"
    using html_escape_chars(1) by (rule script_skip_list)
  then show "\<not> sublist ''<script>'' (html_escape sent)" by simp
  show "\<not> sublist ''<script>'' (highlight sentences scores)" by (rule highlight_no_script)
  show "count_list (highlight sentences scores) CHR ''<'' = 2 * length (zip sentences scores)"
    by (rule highlight_count) simp
  show "count_list (highlight sentences scores) CHR ''>'' = 2 * length (zip sentences scores)"
    by (rule highlight_count) simp
  show e: "html_escape ''a<script>b'' = ''a&lt;script&gt;b''"
    by (simp add: html_escape_pointwise escape_char_def)
  have "html_escape ''<script>'' = ''&lt;script&gt;''"
    by (simp add: html_escape_pointwise escape_char_def)
  then show "highlight [''<script>''] [0] = span none_color ''&lt;script&gt;''"
    by (simp add: highlight_def highlight_color_def)
qed

subsection \<open>Determinism\<close>

text \<open>
  Claim C9. The result of the analysis depends on the text and on what the classifier
  answers for the sentences of this text, and on nothing else: two runs on the same text
  in which the classifier gives the same answer have the same highlighted text, the same
  overall probability, the same per-sentence scores and the same page.
\<close>

theorem pipeline_deterministic:
  assumes "d1 (simple_sentence_tokenize text) = d2 (simple_sentence_tokenize text)"
  shows "analyze_and_highlight d1 text = analyze_and_highlight d2 text
    \<and> map_sum id sentence_scores (d1 (simple_sentence_tokenize text))
        = map_sum id sentence_scores (d2 (simple_sentence_tokenize text))
    \<and> analysis_section (Inr d1) analyze text min_len
        = analysis_section (Inr d2) analyze text min_len"
proof (intro conjI)
  show a: "analyze_and_highlight d1 text = analyze_and_highlight d2 text"
    by (simp only: analyze_and_highlight_def Let_def assms)
  show "map_sum id sentence_scores (d1 (simple_sentence_tokenize text))
        = map_sum id sentence_scores (d2 (simple_sentence_tokenize text))"
    by (simp only: assms)
  show "analysis_section (Inr d1) analyze text min_len
        = analysis_section (Inr d2) analyze text min_len"
    by (simp only: analysis_section_def sum.case a)
qed

theorem pipeline_deterministic_witness:
  "fake_detector (simple_sentence_tokenize ''Hi there.'')
     = narrow_detector (simple_sentence_tokenize ''Hi there.'')
   \<and> fake_detector [] \<noteq> narrow_detector []
   \<and> analyze_and_highlight fake_detector ''Hi there.''
       = analyze_and_highlight narrow_detector ''Hi there.''"
proof -
  have t: "simple_sentence_tokenize ''Hi there.'' = [''Hi there.'']" by code_simp
  have a: "fake_detector (simple_sentence_tokenize ''Hi there.'')
     = narrow_detector (simple_sentence_tokenize ''Hi there.'')"
    unfolding t by (simp add: narrow_detector_def)
  have n: "fake_detector [] \<noteq> narrow_detector []"
    by (simp add: narrow_detector_def fake_detector_def)
  from a n pipeline_deterministic [of fake_detector "''Hi there.''" narrow_detector]
  show ?thesis by blast
qed

subsection \<open>Texts below the recommended length\<close>

text \<open>
  Claim C1 says that a text below the minimum length is analysed all the same. The
  page does otherwise: for the eleven characters of \<open>Short text.\<close> and a minimum of
  50 it shows the notice and no result, with a working detector as with one that cannot
  be loaded.
\<close>

theorem below_threshold_counterexample:
  "strip ''Short text.'' \<noteq> [] \<and> length ''Short text.'' < 50
   \<and> \<not> shows_result (analysis_section (Inr fake_detector) True ''Short text.'' 50)
   \<and> analysis_section (Inr fake_detector) True ''Short text.'' 50 = LengthNotice 11 50
   \<and> analysis_section (Inl ClassifierUnavailable) True ''Short text.'' 50 = LengthNotice 11 50"
proof -
  have s: "strip ''Short text.'' = ''Short text.''" by code_simp
  show ?thesis
    by (simp add: analysis_section_def s shows_result_def)
qed

text \<open>
  Claim C1, amended. When the text is not blank and shorter than the minimum, the page
  shows the notice with the actual and the recommended length instead of the analysis,
  whatever the detector is; a result is shown only for a text that is not blank and at
  least as long as the minimum.
\<close>

theorem below_threshold_notice:
  "(strip text \<noteq> [] \<and> length text < min_len \<longrightarrow>
      analysis_section load_detector True text min_len = LengthNotice (length text) min_len)
   \<and> (shows_result (analysis_section load_detector analyze text min_len) \<longrightarrow>
      analyze \<and> strip text \<noteq> [] \<and> min_len \<le> length text)"
  by (auto simp: analysis_section_def shows_result_def split: if_splits)


theorem below_threshold_notice_witness:
  "strip ''Short text.'' \<noteq> [] \<and> length ''Short text.'' < 50
   \<and> analysis_section (Inl ClassifierUnavailable) True ''Short text.'' 50 = LengthNotice 11 50
   \<and> shows_result (analysis_section (Inr fake_detector) True
         ''This is one. This is two. This is a third sentence.'' 50)
   \<and> 50 \<le> length ''This is one. This is two. This is a third sentence.''"
proof -
  have s: "strip ''Short text.'' \<noteq> []" by code_simp
  have l: "length ''Short text.'' < 50" by simp
  from s l below_threshold_notice [of "''Short text.''" 50 "Inl ClassifierUnavailable"]
  have n: "analysis_section (Inl ClassifierUnavailable) True ''Short text.'' 50
      = LengthNotice 11 50"
    by simp
  have s': "strip ''This is one. This is two. This is a third sentence.'' \<noteq> []"
    by code_simp
  have t: "simple_sentence_tokenize ''This is one. This is two. This is a third sentence.''
      = [''This is one.'', ''This is two.'', ''This is a third sentence.'']"
    by code_simp
  have r: "shows_result (analysis_section (Inr fake_detector) True
         ''This is one. This is two. This is a third sentence.'' 50)"
    using s' by (simp add: analysis_section_def analyze_and_highlight_def t fake_detector_def
        sentence_scores_def overall_prob_Inr shows_result_def Let_def)
  from r below_threshold_notice [of "''This is one. This is two. This is a third sentence.''"
      50 "Inr fake_detector" True]
  have "50 \<le> length ''This is one. This is two. This is a third sentence.''" by blast
  with s l n r show ?thesis by blast
qed

end
